theory Spec2Isabelle
  imports Main "HOL-Library.Multiset"
begin

section \<open>The package index models of crate (packages/models.py)\<close>

text \<open>
  The module declares the Django models of a package index and one signal handler,
  \<open>version_ordering\<close>, that renumbers the \<open>order\<close> column of the releases of a
  package after a release has been created. The embedding keeps the rows of the
  release table in a list (the order in which a query without \<open>order_by\<close> yields
  them), threads the table through the handler, and records every \<open>UPDATE\<close> the
  handler issues in a log.
\<close>

subsection \<open>Exceptions\<close>

text \<open>A raised Python exception, named by its class.\<close>

datatype exn = Raise string

subsection \<open>The version library\<close>

text \<open>
  \<open>packages.utils.verlib\<close> is imported by the module but is not part of it. Its three
  entry points are parameters of the model: \<open>suggest_normalized_version\<close> yields a
  normalized version string or \<open>None\<close>, the constructor \<open>NormalizedVersion\<close> yields a
  comparable version object and \<open>nv_str\<close> is \<open>str\<close> of such an object. A call of the
  library may raise; the comparison of two version objects is a linear order.
\<close>

record 'k verlib =
  suggest_normalized_version :: "string \<Rightarrow> exn + string option"
  NormalizedVersion :: "string option \<Rightarrow> exn + 'k"
  nv_str :: "'k \<Rightarrow> string"

subsection \<open>Rows\<close>

text \<open>
  A row of \<open>Release\<close>: the primary key, the two columns of \<open>TimeStampedModel\<close>, the
  foreign key to the package and the declared columns (the column keywords is
  named keywords_column here). Timestamps are integers
  (microseconds). The many-to-many relation \<open>classifiers\<close> lives in a table of its
  own and is not a column.
\<close>

record Release =
  pk :: nat
  created :: int
  modified :: int
  package :: nat
  version :: string
  hidden :: bool
  order :: int
  platform :: string
  summary :: string
  description :: string
  keywords_column :: string
  license :: string
  author :: string
  author_email :: string
  maintainer :: string
  maintainer_email :: string
  requires_python :: string
  download_uri :: string
  uris :: "(string \<times> string) list"
  raw_data :: "string option"

text \<open>
  A \<open>Package\<close> object: its row and the attribute \<open>_latest_release\<close> that the
  property \<open>latest\<close> sets on first use. The attribute is \<open>None\<close> here while the
  object does not have it, and \<open>Some v\<close> once it holds the value \<open>v\<close> (which may
  itself be Python's \<open>None\<close>).
\<close>

record Package =
  package_pk :: nat
  package_created :: int
  package_modified :: int
  name :: string
  latest_release :: "Release option option"

type_synonym release_table = "Release list"

text \<open>The \<open>UPDATE\<close> statements issued, oldest first: primary key and new \<open>order\<close>.\<close>

type_synonym update_log = "(nat \<times> int) list"

subsection \<open>Queries\<close>

text \<open>\<open>Release.objects.filter(package__pk=p)\<close>\<close>

definition filter_package :: "nat \<Rightarrow> release_table \<Rightarrow> Release list" where
  "filter_package p tbl = filter (\<lambda>r. package r = p) tbl"

text \<open>\<open>Release.objects.filter(pk=k).update(order=i)\<close>: no other column is written.\<close>

definition update_order :: "nat \<Rightarrow> int \<Rightarrow> release_table \<Rightarrow> release_table" where
  "update_order k i tbl = map (\<lambda>r. if pk r = k then r\<lparr>order := i\<rparr> else r) tbl"

text \<open>\<open>order_by("-order")\<close>\<close>

definition order_by_minus_order :: "Release list \<Rightarrow> Release list" where
  "order_by_minus_order rs = sort_key (\<lambda>r. - order r) rs"

subsection \<open>Python's list.sort with a key\<close>

text \<open>
  \<open>list.sort(key=f)\<close> first computes the key of every element, in list order, and an
  exception raised by \<open>f\<close> leaves the method; then it sorts the elements by their keys,
  ascending and stable.
\<close>

fun map_keys :: "('a \<Rightarrow> exn + 'k) \<Rightarrow> 'a list \<Rightarrow> exn + 'k list" where
  "map_keys f [] = Inr []"
| "map_keys f (x # xs) =
     (case f x of
        Inl e \<Rightarrow> Inl e
      | Inr k \<Rightarrow> (case map_keys f xs of Inl e \<Rightarrow> Inl e | Inr ks \<Rightarrow> Inr (k # ks)))"

definition list_sort :: "('a \<Rightarrow> exn + 'k::linorder) \<Rightarrow> 'a list \<Rightarrow> exn + 'a list" where
  "list_sort f xs =
     (case map_keys f xs of
        Inl e \<Rightarrow> Inl e
      | Inr ks \<Rightarrow> Inr (map snd (sort_key fst (zip ks xs))))"

subsection \<open>The signal handler\<close>

text \<open>
  The keyword arguments of a \<open>post_save\<close> signal that the handler reads.
  \<open>kw_instance = None\<close> and \<open>kw_created = None\<close> stand for an absent key.
\<close>

record post_save_kwargs =
  kw_instance :: "Release option"
  kw_created :: "bool option"

text \<open>The first loop: \<open>versions\<close> and \<open>dated\<close> grow by \<open>append\<close>.\<close>

fun partition_loop ::
  "'k verlib \<Rightarrow> Release list \<Rightarrow> Release list \<Rightarrow> Release list
     \<Rightarrow> exn + (Release list \<times> Release list)" where
  "partition_loop V [] versions dated = Inr (versions, dated)"
| "partition_loop V (release # rest) versions dated =
     (case suggest_normalized_version V (version release) of
        Inl e \<Rightarrow> Inl e
      | Inr normalized \<Rightarrow>
          if normalized \<noteq> None then partition_loop V rest (versions @ [release]) dated
          else partition_loop V rest versions (dated @ [release]))"

text \<open>The key of \<open>versions.sort\<close>.\<close>

definition version_key :: "'k verlib \<Rightarrow> Release \<Rightarrow> exn + 'k" where
  "version_key V x =
     (case suggest_normalized_version V (version x) of
        Inl e \<Rightarrow> Inl e
      | Inr normalized \<Rightarrow> NormalizedVersion V normalized)"

text \<open>The key of \<open>dated.sort\<close>.\<close>

definition created_key :: "Release \<Rightarrow> exn + int" where
  "created_key x = Inr (created x)"

text \<open>
  The second loop, over \<open>enumerate(dated + versions)\<close>: \<open>release\<close> is the object read
  before the loop, so \<open>release.order\<close> is the value the row had then.
\<close>

fun assign_loop ::
  "nat \<Rightarrow> Release list \<Rightarrow> release_table \<times> update_log \<Rightarrow> release_table \<times> update_log" where
  "assign_loop i [] s = s"
| "assign_loop i (release # rest) (tbl, log) =
     assign_loop (Suc i) rest
       (if order release \<noteq> int i
        then (update_order (pk release) (int i) tbl, log @ [(pk release, int i)])
        else (tbl, log))"

text \<open>The body of the handler's \<open>if\<close>, for the package with primary key \<open>p\<close>.\<close>

definition reorder_package ::
  "('k::linorder) verlib \<Rightarrow> nat \<Rightarrow> release_table \<Rightarrow> exn + (release_table \<times> update_log)" where
  "reorder_package V p tbl =
     (let releases = filter_package p tbl in
      case partition_loop V releases [] [] of
        Inl e \<Rightarrow> Inl e
      | Inr (versions, dated) \<Rightarrow>
          (case list_sort (version_key V) versions of
             Inl e \<Rightarrow> Inl e
           | Inr versions' \<Rightarrow>
               (case list_sort created_key dated of
                  Inl e \<Rightarrow> Inl e
                | Inr dated' \<Rightarrow> Inr (assign_loop 0 (dated' @ versions') (tbl, [])))))"

text \<open>
  \<open>version_ordering(sender, **kwargs)\<close>. The result is the table after the call and
  the updates issued, or the exception that left the handler. Every call that may
  raise comes before the first update, so an exception leaves the table as it was.
\<close>

definition version_ordering ::
  "('k::linorder) verlib \<Rightarrow> post_save_kwargs \<Rightarrow> release_table
     \<Rightarrow> exn + (release_table \<times> update_log)" where
  "version_ordering V kwargs tbl =
     (case kw_instance kwargs of
        None \<Rightarrow> Inr (tbl, [])
      | Some inst \<Rightarrow>
          if (case kw_created kwargs of None \<Rightarrow> True | Some c \<Rightarrow> c)
          then reorder_package V (package inst) tbl
          else Inr (tbl, []))"

subsection \<open>Python's string operations used by requirement_line\<close>

text \<open>\<open>s.split(".")\<close>: the pieces between the separators, at least one piece.\<close>

fun split_on :: "char \<Rightarrow> string \<Rightarrow> string list" where
  "split_on c [] = [[]]"
| "split_on c (x # xs) =
     (if x = c then [] # split_on c xs
      else (case split_on c xs of
              [] \<Rightarrow> [[x]]
            | p # ps \<Rightarrow> (x # p) # ps))"

text \<open>\<open>xs[i]\<close> for an index that is not negative.\<close>

definition getitem :: "'a list \<Rightarrow> nat \<Rightarrow> exn + 'a" where
  "getitem xs i = (if i < length xs then Inr (xs ! i) else Inl (Raise ''IndexError''))"

definition is_space :: "char \<Rightarrow> bool" where
  "is_space c = (c \<in> set [CHR '' '', CHR 0x09, CHR 0x0A, CHR 0x0B, CHR 0x0C, CHR 0x0D])"

definition strip :: "string \<Rightarrow> string" where
  "strip s = rev (dropWhile is_space (rev (dropWhile is_space s)))"

definition digit_value :: "char \<Rightarrow> nat option" where
  "digit_value c = map_of (zip ''0123456789'' [0, 1, 2, 3, 4, 5, 6, 7, 8, 9]) c"

fun digits_value :: "nat \<Rightarrow> string \<Rightarrow> nat option" where
  "digits_value acc [] = Some acc"
| "digits_value acc (c # cs) =
     (case digit_value c of
        None \<Rightarrow> None
      | Some d \<Rightarrow> digits_value (10 * acc + d) cs)"

text \<open>
  \<open>int(s)\<close> of a string: surrounding whitespace is dropped, then an optional sign and
  at least one decimal digit are read; anything else raises \<open>ValueError\<close>.
\<close>

definition py_int :: "string \<Rightarrow> exn + int" where
  "py_int s =
     (let t = strip s;
          neg = (case t of [] \<Rightarrow> False | c # _ \<Rightarrow> c = CHR ''-'');
          d = (case t of [] \<Rightarrow> [] | c # cs \<Rightarrow> if c = CHR ''-'' \<or> c = CHR ''+'' then cs else t)
      in if d = [] then Inl (Raise ''ValueError'')
         else (case digits_value 0 d of
                 None \<Rightarrow> Inl (Raise ''ValueError'')
               | Some n \<Rightarrow> Inr (if neg then - int n else int n)))"

definition digit_char :: "nat \<Rightarrow> char" where
  "digit_char d = ''0123456789'' ! (d mod 10)"

function str_nat :: "nat \<Rightarrow> string" where
  "str_nat n = (if n < 10 then [digit_char n] else str_nat (n div 10) @ [digit_char (n mod 10)])"
  by pat_completeness auto
termination
  by (relation "measure (\<lambda>n. n)") auto

text \<open>\<open>"%s" % i\<close> for an integer \<open>i\<close>.\<close>

definition str_int :: "int \<Rightarrow> string" where
  "str_int i = (if i < 0 then CHR ''-'' # str_nat (nat (- i)) else str_nat (nat i))"

subsection \<open>The properties of Package\<close>

text \<open>
  \<open>Package.latest\<close>: the value of the property and the object afterwards. The query
  runs only while the object has no attribute \<open>_latest_release\<close>; the attribute then
  keeps the value for every later read.
\<close>

definition latest :: "Package \<Rightarrow> release_table \<Rightarrow> Release option \<times> Package" where
  "latest self tbl =
     (case latest_release self of
        None \<Rightarrow>
          (let releases = take 1 (order_by_minus_order (filter_package (package_pk self) tbl));
               v = (case releases of [] \<Rightarrow> None | r # _ \<Rightarrow> Some r)
           in (v, self\<lparr>latest_release := Some v\<rparr>))
      | Some v \<Rightarrow> (v, self))"

text \<open>
  \<open>Package.requirement_line\<close>: the string, or \<open>None\<close> when the function falls off its
  end, together with the object afterwards; or the exception raised.
\<close>

definition requirement_line ::
  "'k verlib \<Rightarrow> Package \<Rightarrow> release_table \<Rightarrow> exn + (string option \<times> Package)" where
  "requirement_line V self tbl =
     (case latest self tbl of
        (None, self') \<Rightarrow> Inr (None, self')
      | (Some rel, self') \<Rightarrow>
          (case suggest_normalized_version V (version rel) of
             Inl e \<Rightarrow> Inl e
           | Inr None \<Rightarrow> Inr (Some (name self' @ ''=='' @ version rel), self')
           | Inr (Some normalized) \<Rightarrow>
               (case NormalizedVersion V (Some normalized) of
                  Inl e \<Rightarrow> Inl e
                | Inr nv \<Rightarrow>
                    (let ver = nv_str V nv in
                     case getitem (split_on CHR ''.'' ver) 0 of
                       Inl e \<Rightarrow> Inl e
                     | Inr major \<Rightarrow>
                         (case getitem (split_on CHR ''.'' ver) 1 of
                            Inl e \<Rightarrow> Inl e
                          | Inr m \<Rightarrow>
                              (case py_int m of
                                 Inl e \<Rightarrow> Inl e
                               | Inr minor \<Rightarrow>
                                   Inr (Some (name self' @ ''>='' @ version rel @ '',<''
                                              @ major @ ''.'' @ str_int (minor + 1)),
                                        self')))))))"

subsection \<open>The ordering in the words of the specification\<close>

text \<open>A release is versioned when its version string normalizes, and dated otherwise.\<close>

definition is_versioned :: "'k verlib \<Rightarrow> Release \<Rightarrow> bool" where
  "is_versioned V r =
     (case suggest_normalized_version V (version r) of
        Inl e \<Rightarrow> False
      | Inr None \<Rightarrow> False
      | Inr (Some n) \<Rightarrow> True)"

definition is_dated :: "'k verlib \<Rightarrow> Release \<Rightarrow> bool" where
  "is_dated V r = (suggest_normalized_version V (version r) = Inr None)"

text \<open>
  The specification's \<open>parse\<close>: the comparable normalized version of a version
  string, or \<open>None\<close> when the library gives none for the string.
\<close>

definition parse :: "'k verlib \<Rightarrow> string \<Rightarrow> 'k option" where
  "parse V s =
     (case suggest_normalized_version V s of
        Inl e \<Rightarrow> None
      | Inr None \<Rightarrow> None
      | Inr (Some n) \<Rightarrow>
          (case NormalizedVersion V (Some n) of Inl e \<Rightarrow> None | Inr k \<Rightarrow> Some k))"

text \<open>The normalized version of a release whose version string normalizes.\<close>

definition normalized_version :: "'k verlib \<Rightarrow> Release \<Rightarrow> 'k" where
  "normalized_version V r = the (parse V (version r))"

text \<open>
  The library raises on none of the releases: neither the normalization of a version
  string nor the construction of the version object of a normalized string.
\<close>

definition no_raise :: "'k verlib \<Rightarrow> Release list \<Rightarrow> bool" where
  "no_raise V rs =
     list_all (\<lambda>r. case suggest_normalized_version V (version r) of
                      Inl e \<Rightarrow> False
                    | Inr None \<Rightarrow> True
                    | Inr (Some n) \<Rightarrow> \<not> isl (NormalizedVersion V (Some n))) rs"

text \<open>
  Specification: the dated releases ascending by creation time, then the versioned
  releases ascending by normalized version.
\<close>

definition spec_ordering :: "('k::linorder) verlib \<Rightarrow> Release list \<Rightarrow> Release list" where
  "spec_ordering V rs =
     sort_key created (filter (is_dated V) rs)
       @ sort_key (normalized_version V) (filter (is_versioned V) rs)"

text \<open>
  No two dated releases share a creation time and no two versioned releases share a
  normalized version: the two sorts have no ties to break.
\<close>

definition tie_free :: "('k::linorder) verlib \<Rightarrow> Release list \<Rightarrow> bool" where
  "tie_free V rs =
     (distinct (map created (filter (is_dated V) rs))
      \<and> distinct (map (normalized_version V) (filter (is_versioned V) rs)))"

subsection \<open>Auxiliary notions\<close>

text \<open>The index of the first release with primary key \<open>k\<close> in a list.\<close>

fun position :: "nat \<Rightarrow> Release list \<Rightarrow> nat option" where
  "position k [] = None"
| "position k (r # rs) = (if pk r = k then Some 0 else map_option Suc (position k rs))"

text \<open>
  A row after the second loop has run over \<open>rs\<close>, counting from \<open>i\<close>: its \<open>order\<close> is
  its position in \<open>rs\<close>, and a row that is not in \<open>rs\<close> is as it was.
\<close>

definition renumber :: "nat \<Rightarrow> Release list \<Rightarrow> Release \<Rightarrow> Release" where
  "renumber i rs row =
     (case position (pk row) rs of None \<Rightarrow> row | Some j \<Rightarrow> row\<lparr>order := int (i + j)\<rparr>)"

text \<open>The updates the second loop issues on \<open>rs\<close>: one for each release out of place.\<close>

definition issued :: "Release list \<Rightarrow> update_log" where
  "issued rs = map (\<lambda>(j, r). (pk r, int j)) (filter (\<lambda>(j, r). order r \<noteq> int j) (enumerate 0 rs))"

subsection \<open>Sample data\<close>

text \<open>
  A version library that normalizes exactly the two strings \<open>1.0\<close> and \<open>2.0\<close> and
  never raises on a release's version string.
\<close>

definition sample_verlib :: "nat verlib" where
  "sample_verlib =
     \<lparr>suggest_normalized_version =
        (\<lambda>s. if s = ''1.0'' \<or> s = ''2.0'' then Inr (Some s) else Inr None),
      NormalizedVersion =
        (\<lambda>n. if n = Some ''1.0'' then Inr 1
             else if n = Some ''2.0'' then Inr 2
             else Inl (Raise ''IrrationalVersionError'')),
      nv_str = (\<lambda>k. if k = 1 then ''1.0'' else ''2.0'')\<rparr>"

text \<open>The same library, except that normalizing the string \<open>bad\<close> raises.\<close>

definition raising_verlib :: "nat verlib" where
  "raising_verlib =
     sample_verlib\<lparr>suggest_normalized_version :=
        (\<lambda>s. if s = ''bad'' then Inl (Raise ''ValueError'')
             else suggest_normalized_version sample_verlib s)\<rparr>"

text \<open>
  The row of \<open>Release(package=p, version=v)\<close> saved at time \<open>c\<close> under primary key
  \<open>k\<close>: every other column has its declared default.
\<close>

definition new_release :: "nat \<Rightarrow> nat \<Rightarrow> string \<Rightarrow> int \<Rightarrow> Release" where
  "new_release k p v c =
     \<lparr>pk = k, created = c, modified = c, package = p, version = v, hidden = False,
      order = 0, platform = [], summary = [], description = [], keywords_column = [],
      license = [], author = [], author_email = [], maintainer = [],
      maintainer_email = [], requires_python = [], download_uri = [], uris = [],
      raw_data = None\<rparr>"

text \<open>
  Package 7 with the releases of the specification's example, \<open>2.0\<close>, \<open>2023-01-dev\<close>
  and \<open>1.0\<close>, and package 8 with one release.
\<close>

definition sample_table :: release_table where
  "sample_table =
     [new_release 1 7 ''2.0'' 30, new_release 2 7 ''2023-01-dev'' 10,
      new_release 3 7 ''1.0'' 20, new_release 4 8 ''0.1-old'' 5]"

text \<open>The signal sent after release 3 has been created.\<close>

definition sample_instance :: Release where
  "sample_instance = new_release 3 7 ''1.0'' 20"

definition sample_kwargs :: post_save_kwargs where
  "sample_kwargs = \<lparr>kw_instance = Some sample_instance, kw_created = Some True\<rparr>"

definition sample_package :: Package where
  "sample_package =
     \<lparr>package_pk = 7, package_created = 1, package_modified = 1, name = ''crate'',
      latest_release = None\<rparr>"

text \<open>The table and the updates after the handler has run on the sample.\<close>

definition sample_result :: release_table where
  "sample_result =
     [(new_release 1 7 ''2.0'' 30)\<lparr>order := 2\<rparr>, new_release 2 7 ''2023-01-dev'' 10,
      (new_release 3 7 ''1.0'' 20)\<lparr>order := 1\<rparr>, new_release 4 8 ''0.1-old'' 5]"

definition sample_log :: update_log where
  "sample_log = [(3, 1), (1, 2)]"

text \<open>Package 7 after a release with the version string \<open>bad\<close> has been created.\<close>

definition raising_instance :: Release where
  "raising_instance = new_release 5 7 ''bad'' 40"

definition raising_table :: release_table where
  "raising_table = sample_table @ [raising_instance]"

definition raising_kwargs :: post_save_kwargs where
  "raising_kwargs = \<lparr>kw_instance = Some raising_instance, kw_created = Some True\<rparr>"

text \<open>A package with one release, created with \<open>order = 3\<close>.\<close>

definition single_instance :: Release where
  "single_instance = (new_release 4 8 ''0.1-old'' 5)\<lparr>order := 3\<rparr>"

definition single_table :: release_table where
  "single_table = [new_release 1 7 ''2.0'' 30, single_instance]"

definition single_kwargs :: post_save_kwargs where
  "single_kwargs = \<lparr>kw_instance = Some single_instance, kw_created = Some True\<rparr>"

text \<open>
  The release table before and after release \<open>2.0\<close> of package 7 has been created
  and ordered.
\<close>

definition first_release :: Release where
  "first_release = new_release 1 7 ''1.0'' 10"

definition second_release :: Release where
  "second_release = (new_release 2 7 ''2.0'' 20)\<lparr>order := 1\<rparr>"

definition first_table :: release_table where
  "first_table = [first_release]"

definition second_table :: release_table where
  "second_table = [first_release, second_release]"

text \<open>The signal of the sample without the key \<open>created\<close>, and with \<open>created\<close> false.\<close>

definition absent_kwargs :: post_save_kwargs where
  "absent_kwargs = \<lparr>kw_instance = Some sample_instance, kw_created = None\<rparr>"

definition saved_kwargs :: post_save_kwargs where
  "saved_kwargs = \<lparr>kw_instance = Some sample_instance, kw_created = Some False\<rparr>"

text \<open>
  A library for which the strings \<open>1.0.0\<close> and \<open>1.0\<close> normalize to equal versions,
  and a package with these two releases: the table before the handler runs, after
  it has run, and after it has run again on the same rows read in the other order.
\<close>

definition tie_verlib :: "nat verlib" where
  "tie_verlib =
     \<lparr>suggest_normalized_version =
        (\<lambda>s. if s = ''1.0.0'' \<or> s = ''1.0'' then Inr (Some s) else Inr None),
      NormalizedVersion =
        (\<lambda>n. if n = Some ''1.0.0'' \<or> n = Some ''1.0'' then Inr 1
             else Inl (Raise ''IrrationalVersionError'')),
      nv_str = (\<lambda>k. ''1.0'')\<rparr>"

definition tie_instance :: Release where
  "tie_instance = new_release 2 7 ''1.0'' 20"

definition tie_table :: release_table where
  "tie_table = [new_release 1 7 ''1.0.0'' 10, tie_instance]"

definition tie_kwargs :: post_save_kwargs where
  "tie_kwargs = \<lparr>kw_instance = Some tie_instance, kw_created = Some True\<rparr>"

definition tie_result :: release_table where
  "tie_result = [new_release 1 7 ''1.0.0'' 10, tie_instance\<lparr>order := 1\<rparr>]"

definition tie_swapped :: release_table where
  "tie_swapped = [tie_instance, (new_release 1 7 ''1.0.0'' 10)\<lparr>order := 1\<rparr>]"

section \<open>Properties of the model\<close>


lemma no_raise_cases:
  "no_raise V rs \<Longrightarrow> r \<in> set rs \<Longrightarrow> is_dated V r \<or> is_versioned V r"
  by (auto simp: no_raise_def is_dated_def is_versioned_def list_all_iff
           split: sum.splits option.splits)

lemma dated_not_versioned: "is_dated V r \<Longrightarrow> \<not> is_versioned V r"
  by (simp add: is_dated_def is_versioned_def)

lemma no_raise_Cons:
  "no_raise V (r # rs) \<longleftrightarrow> (is_dated V r \<or> (is_versioned V r \<and> \<not> isl (version_key V r))) \<and> no_raise V rs"
  by (auto simp: no_raise_def is_dated_def is_versioned_def version_key_def
           split: sum.splits option.splits)

lemma partition_loop_no_raise:
  "no_raise V rs \<Longrightarrow>
   partition_loop V rs vs ds =
     Inr (vs @ filter (is_versioned V) rs, ds @ filter (is_dated V) rs)"
proof (induction rs arbitrary: vs ds)
  case Nil
  then show ?case by simp
next
  case (Cons r rs)
  from Cons.prems have nr: "no_raise V rs" by (simp add: no_raise_Cons)
  from Cons.prems show ?case
    by (auto simp: no_raise_Cons Cons.IH [OF nr] is_dated_def is_versioned_def
             split: sum.splits option.splits)
qed

lemma map_keys_total:
  "\<forall>x\<in>set xs. f x = Inr (g x) \<Longrightarrow> map_keys f xs = Inr (map g xs)"
  by (induction xs) auto

lemma insort_key_decorated:
  "\<forall>p\<in>set ps. fst p = g (snd p) \<Longrightarrow>
   map snd (insort_key fst (g x, x) ps) = insort_key g x (map snd ps)"
  by (induction ps) auto

lemma decorated_sort_key:
  "map snd (sort_key fst (zip (map g xs) xs)) = sort_key g xs"
proof (induction xs)
  case Nil
  then show ?case by simp
next
  case (Cons x xs)
  have "\<forall>p\<in>set (sort_key fst (zip (map g xs) xs)). fst p = g (snd p)"
    by (auto simp: set_zip)
  then show ?case using Cons.IH by (simp add: insort_key_decorated)
qed

lemma list_sort_total:
  "\<forall>x\<in>set xs. f x = Inr (g x) \<Longrightarrow> list_sort f xs = Inr (sort_key g xs)"
  using map_keys_total [of xs f g] by (simp add: list_sort_def decorated_sort_key)

lemma version_key_versioned:
  "no_raise V rs \<Longrightarrow> r \<in> set rs \<Longrightarrow> is_versioned V r \<Longrightarrow>
   version_key V r = Inr (normalized_version V r)"
  by (auto simp: no_raise_def list_all_iff is_versioned_def version_key_def
        normalized_version_def parse_def split: sum.splits option.splits)

lemma reorder_package_no_raise:
  assumes "no_raise V (filter_package p tbl)"
  shows "reorder_package V p tbl =
           Inr (assign_loop 0 (spec_ordering V (filter_package p tbl)) (tbl, []))"
proof -
  let ?rs = "filter_package p tbl"
  have 1: "partition_loop V ?rs [] [] = Inr (filter (is_versioned V) ?rs, filter (is_dated V) ?rs)"
    using partition_loop_no_raise [OF assms, of "[]" "[]"] by simp
  have 2: "list_sort (version_key V) (filter (is_versioned V) ?rs)
             = Inr (sort_key (normalized_version V) (filter (is_versioned V) ?rs))"
    by (rule list_sort_total) (auto intro: version_key_versioned [OF assms])
  have 3: "list_sort created_key (filter (is_dated V) ?rs)
             = Inr (sort_key created (filter (is_dated V) ?rs))"
    by (rule list_sort_total) (simp add: created_key_def)
  show ?thesis
    by (simp add: reorder_package_def Let_def 1 2 3 spec_ordering_def)
qed


lemma position_None: "position k rs = None \<longleftrightarrow> k \<notin> pk ` set rs"
  by (induction rs) auto

lemma position_Some:
  "position k rs = Some j \<Longrightarrow> j < length rs \<and> pk (rs ! j) = k"
  by (induction rs arbitrary: j) (auto split: if_splits)

lemma position_nth:
  "distinct (map pk rs) \<Longrightarrow> j < length rs \<Longrightarrow> position (pk (rs ! j)) rs = Some j"
proof (induction rs arbitrary: j)
  case Nil
  then show ?case by simp
next
  case (Cons r rs)
  show ?case
  proof (cases j)
    case 0
    then show ?thesis by simp
  next
    case (Suc n)
    with Cons.prems have "rs ! n \<in> set rs" by simp
    moreover from Cons.prems(1) have "pk r \<notin> pk ` set rs" by simp
    ultimately have "pk (rs ! n) \<noteq> pk r" by (metis imageI)
    with Suc Cons show ?thesis by simp
  qed
qed

lemma update_order_renumber_step:
  assumes "pk r \<notin> pk ` set rest"
  shows "map (renumber (Suc i) rest) (update_order (pk r) (int i) tbl)
           = map (renumber i (r # rest)) tbl"
proof -
  have "renumber (Suc i) rest (if pk row = pk r then row\<lparr>order := int i\<rparr> else row)
          = renumber i (r # rest) row" for row
    using assms
    by (cases "position (pk row) rest")
       (auto simp: renumber_def position_None [symmetric])
  then show ?thesis by (simp add: update_order_def)
qed

lemma keep_renumber_step:
  assumes "pk r \<notin> pk ` set rest"
    and "\<forall>row\<in>set tbl. pk row = pk r \<longrightarrow> order row = int i"
  shows "map (renumber (Suc i) rest) tbl = map (renumber i (r # rest)) tbl"
proof (rule map_cong [OF refl])
  fix row assume "row \<in> set tbl"
  with assms show "renumber (Suc i) rest row = renumber i (r # rest) row"
    by (cases "position (pk row) rest")
       (auto simp: renumber_def position_None [symmetric])
qed

lemma assign_loop_table:
  assumes "distinct (map pk rs)"
    and "\<forall>r\<in>set rs. \<forall>row\<in>set tbl. pk row = pk r \<longrightarrow> order row = order r"
  shows "fst (assign_loop i rs (tbl, log)) = map (renumber i rs) tbl"
  using assms
proof (induction rs arbitrary: i tbl log)
  case Nil
  then show ?case by (simp add: renumber_def)
next
  case (Cons r rest)
  have fresh: "pk r \<notin> pk ` set rest" and d: "distinct (map pk rest)"
    using Cons.prems(1) by auto
  show ?case
  proof (cases "order r = int i")
    case True
    have inv: "\<forall>x\<in>set rest. \<forall>row\<in>set tbl. pk row = pk x \<longrightarrow> order row = order x"
      using Cons.prems(2) by simp
    have same: "\<forall>row\<in>set tbl. pk row = pk r \<longrightarrow> order row = int i"
      using Cons.prems(2) True by simp
    show ?thesis
      using True Cons.IH [OF d inv] keep_renumber_step [OF fresh same] by simp
  next
    case False
    have inv: "\<forall>x\<in>set rest. \<forall>row\<in>set (update_order (pk r) (int i) tbl).
                 pk row = pk x \<longrightarrow> order row = order x"
      using Cons.prems(2) fresh by (auto simp: update_order_def)
    show ?thesis
      using False Cons.IH [OF d inv] update_order_renumber_step [OF fresh] by simp
  qed
qed

lemma assign_loop_log:
  "snd (assign_loop i rs (tbl, log)) =
     log @ map (\<lambda>(j, r). (pk r, int j)) (filter (\<lambda>(j, r). order r \<noteq> int j) (enumerate i rs))"
  by (induction rs arbitrary: i tbl log) auto

lemma assign_loop_fixed:
  "\<forall>j<length rs. order (rs ! j) = int (i + j) \<Longrightarrow> assign_loop i rs s = s"
proof (induction rs arbitrary: i)
  case Nil
  then show ?case by simp
next
  case (Cons r rest)
  from Cons.prems have 0: "order r = int i" by auto
  from Cons.prems have "\<forall>j<length rest. order (rest ! j) = int (Suc i + j)" by auto
  from Cons.IH [OF this] 0 show ?case by (cases s) simp
qed


lemma spec_ordering_mset:
  assumes "no_raise V rs"
  shows "mset (spec_ordering V rs) = mset rs"
proof -
  have "filter (is_dated V) rs = filter (\<lambda>r. \<not> is_versioned V r) rs"
    using no_raise_cases [OF assms] dated_not_versioned [of V]
    by (intro filter_cong) auto
  then show ?thesis
    by (simp add: spec_ordering_def)
qed

lemma spec_ordering_set: "no_raise V rs \<Longrightarrow> set (spec_ordering V rs) = set rs"
  using spec_ordering_mset [of V rs] by (metis set_mset_mset)

lemma spec_ordering_length: "no_raise V rs \<Longrightarrow> length (spec_ordering V rs) = length rs"
  using spec_ordering_mset [of V rs] by (metis size_mset)

lemma spec_ordering_distinct_pk:
  assumes "no_raise V rs" and "distinct (map pk rs)"
  shows "distinct (map pk (spec_ordering V rs))"
proof -
  have "mset (map pk (spec_ordering V rs)) = mset (map pk rs)"
    using spec_ordering_mset [OF assms(1)] by (metis mset_map)
  then show ?thesis using assms(2) by (metis mset_eq_imp_distinct_iff)
qed

lemma filter_package_distinct: "distinct (map pk tbl) \<Longrightarrow> distinct (map pk (filter_package p tbl))"
  by (simp add: filter_package_def distinct_map_filter)

lemma filter_package_subset: "set (filter_package p tbl) \<subseteq> set tbl"
  by (auto simp: filter_package_def)

lemma same_pk_same_row:
  "distinct (map pk tbl) \<Longrightarrow> r \<in> set tbl \<Longrightarrow> row \<in> set tbl \<Longrightarrow> pk row = pk r \<Longrightarrow> row = r"
  by (meson distinct_map inj_onD)

lemma reorder_package_result:
  assumes nr: "no_raise V (filter_package p tbl)" and d: "distinct (map pk tbl)"
  shows "reorder_package V p tbl =
           Inr (map (renumber 0 (spec_ordering V (filter_package p tbl))) tbl,
                issued (spec_ordering V (filter_package p tbl)))"
proof -
  let ?final = "spec_ordering V (filter_package p tbl)"
  have df: "distinct (map pk ?final)"
    by (rule spec_ordering_distinct_pk [OF nr filter_package_distinct [OF d]])
  have sub: "set ?final \<subseteq> set tbl"
    using spec_ordering_set [OF nr] filter_package_subset by blast
  have inv: "\<forall>r\<in>set ?final. \<forall>row\<in>set tbl. pk row = pk r \<longrightarrow> order row = order r"
    using same_pk_same_row [OF d] sub by blast
  have "assign_loop 0 ?final (tbl, []) = (map (renumber 0 ?final) tbl, issued ?final)"
    using assign_loop_table [OF df inv, of 0 "[]"] assign_loop_log [of 0 ?final tbl "[]"]
    by (simp add: issued_def prod_eq_iff)
  then show ?thesis by (simp add: reorder_package_no_raise [OF nr])
qed

lemma renumber_fields [simp]:
  "pk (renumber i rs row) = pk row"
  "package (renumber i rs row) = package row"
  "version (renumber i rs row) = version row"
  "created (renumber i rs row) = created row"
  by (simp_all add: renumber_def split: option.splits)

lemma renumber_order_in:
  "distinct (map pk tbl) \<Longrightarrow> set rs \<subseteq> set tbl \<Longrightarrow> j < length rs \<Longrightarrow>
   distinct (map pk rs) \<Longrightarrow> order (renumber i rs (rs ! j)) = int (i + j)"
  by (simp add: renumber_def position_nth)

lemma filter_package_renumber:
  "filter_package p (map (renumber i rs) tbl) = map (renumber i rs) (filter_package p tbl)"
  by (simp add: filter_package_def filter_map comp_def)

lemma version_ordering_created:
  "kw_instance kwargs = Some inst \<Longrightarrow> kw_created kwargs = Some True \<Longrightarrow>
   version_ordering V kwargs tbl = reorder_package V (package inst) tbl"
  by (simp add: version_ordering_def)

lemma position_member:
  assumes "distinct (map pk rs)" and "r \<in> set rs"
  shows "\<exists>j<length rs. rs ! j = r \<and> position (pk r) rs = Some j"
proof -
  from assms(2) obtain j where "j < length rs" "rs ! j = r"
    by (auto simp: in_set_conv_nth)
  with position_nth [OF assms(1), of j] show ?thesis by auto
qed

lemma renumber_orders:
  "distinct (map pk rs) \<Longrightarrow> map (\<lambda>r. order (renumber 0 rs r)) rs = map int [0..<length rs]"
  by (rule nth_equalityI) (simp_all add: renumber_def position_nth)

lemma is_dated_renumber [simp]: "is_dated V (renumber i rs r) = is_dated V r"
  by (simp add: is_dated_def)

lemma is_versioned_renumber [simp]: "is_versioned V (renumber i rs r) = is_versioned V r"
  by (simp add: is_versioned_def)

lemma normalized_version_renumber [simp]:
  "normalized_version V (renumber i rs r) = normalized_version V r"
  by (simp add: normalized_version_def)

lemma no_raise_renumber [simp]: "no_raise V (map (renumber i rs) xs) = no_raise V xs"
  by (simp add: no_raise_def list_all_iff)

lemma insort_key_map:
  "insort_key k (f x) (map f ys) = map f (insort_key (\<lambda>y. k (f y)) x ys)"
  by (induction ys) auto

lemma sort_key_map: "sort_key k (map f xs) = map f (sort_key (\<lambda>y. k (f y)) xs)"
  by (induction xs) (simp_all add: insort_key_map)

lemma spec_ordering_renumber:
  "spec_ordering V (map (renumber i rs) xs) = map (renumber i rs) (spec_ordering V xs)"
  by (simp add: spec_ordering_def filter_map comp_def sort_key_map)

lemma spec_ordering_dated_index:
  assumes "j < length (spec_ordering V rs)"
  shows "is_dated V (spec_ordering V rs ! j) \<longleftrightarrow> j < length (filter (is_dated V) rs)"
proof (cases "j < length (filter (is_dated V) rs)")
  case True
  then have "spec_ordering V rs ! j \<in> set (sort_key created (filter (is_dated V) rs))"
    by (simp add: spec_ordering_def nth_append del: set_sort)
  then show ?thesis using True by simp
next
  case False
  let ?vs = "sort_key (normalized_version V) (filter (is_versioned V) rs)"
  from False assms have "j - length (filter (is_dated V) rs) < length ?vs"
    by (simp add: spec_ordering_def)
  then have "?vs ! (j - length (filter (is_dated V) rs)) \<in> set ?vs"
    by (rule nth_mem)
  with False have "spec_ordering V rs ! j \<in> set ?vs"
    by (simp add: spec_ordering_def nth_append)
  then have "is_versioned V (spec_ordering V rs ! j)" by simp
  then show ?thesis using False dated_not_versioned by blast
qed

lemma spec_ordering_versioned_index:
  assumes "no_raise V rs" and "j < length (spec_ordering V rs)"
  shows "is_versioned V (spec_ordering V rs ! j) \<longleftrightarrow> length (filter (is_dated V) rs) \<le> j"
proof -
  have "spec_ordering V rs ! j \<in> set rs"
    using spec_ordering_set [OF assms(1)] assms(2) nth_mem by blast
  then have "is_versioned V (spec_ordering V rs ! j) \<longleftrightarrow> \<not> is_dated V (spec_ordering V rs ! j)"
    using no_raise_cases [OF assms(1)] dated_not_versioned by blast
  then show ?thesis using spec_ordering_dated_index [OF assms(2)] by auto
qed

lemmas sample_defs =
  sample_verlib_def raising_verlib_def new_release_def sample_table_def
  sample_instance_def sample_kwargs_def sample_package_def sample_result_def sample_log_def
  raising_instance_def raising_table_def raising_kwargs_def
  single_instance_def single_table_def single_kwargs_def
  first_release_def second_release_def first_table_def second_table_def
  absent_kwargs_def saved_kwargs_def tie_verlib_def tie_instance_def tie_table_def
  tie_kwargs_def tie_result_def tie_swapped_def

lemma sample_kw_instance: "kw_instance sample_kwargs = Some sample_instance"
  by (simp add: sample_kwargs_def)

lemma sample_created: "kw_created sample_kwargs = Some True"
  by (simp add: sample_kwargs_def)

lemma sample_distinct: "distinct (map pk sample_table)"
  by (simp add: sample_defs)


text \<open>
  The example of the specification: \<open>2023-01-dev\<close> gets order 0, \<open>1.0\<close> gets order 1
  and \<open>2.0\<close> gets order 2; the release that is in place already is not written.
\<close>

lemma sample_run:
  "version_ordering sample_verlib sample_kwargs sample_table = Inr (sample_result, sample_log)"
  by (simp add: sample_defs version_ordering_def reorder_package_def filter_package_def
        list_sort_def version_key_def created_key_def update_order_def)

subsection \<open>Exceptions of the library\<close>


lemma partition_loop_ok:
  "\<forall>r\<in>set rs. \<not> isl (suggest_normalized_version V (version r)) \<Longrightarrow>
   partition_loop V rs vs ds =
     Inr (vs @ filter (is_versioned V) rs, ds @ filter (is_dated V) rs)"
proof (induction rs arbitrary: vs ds)
  case Nil
  then show ?case by simp
next
  case (Cons r rs)
  then show ?case
    by (cases "suggest_normalized_version V (version r)")
       (auto simp: is_dated_def is_versioned_def split: option.splits)
qed

lemma partition_loop_raise:
  "\<exists>r\<in>set rs. isl (suggest_normalized_version V (version r)) \<Longrightarrow>
   isl (partition_loop V rs vs ds)"
proof (induction rs arbitrary: vs ds)
  case Nil
  then show ?case by simp
next
  case (Cons r rs)
  then show ?case
    by (cases "suggest_normalized_version V (version r)") auto
qed

lemma map_keys_raise: "\<exists>x\<in>set xs. isl (f x) \<Longrightarrow> isl (map_keys f xs)"
proof (induction xs)
  case Nil
  then show ?case by simp
next
  case (Cons a xs)
  show ?case
  proof (cases "f a")
    case (Inl e)
    then show ?thesis by simp
  next
    case (Inr k)
    with Cons.prems have "\<exists>x\<in>set xs. isl (f x)" by auto
    then have "isl (map_keys f xs)" by (rule Cons.IH)
    with Inr show ?thesis by (cases "map_keys f xs") simp_all
  qed
qed

lemma no_raise_iff:
  "no_raise V rs \<longleftrightarrow>
     (\<forall>r\<in>set rs. \<not> isl (suggest_normalized_version V (version r))
               \<and> (is_versioned V r \<longrightarrow> \<not> isl (version_key V r)))"
proof -
  have "(case suggest_normalized_version V (version r) of
           Inl e \<Rightarrow> False
         | Inr None \<Rightarrow> True
         | Inr (Some n) \<Rightarrow> \<not> isl (NormalizedVersion V (Some n)))
        \<longleftrightarrow> \<not> isl (suggest_normalized_version V (version r))
               \<and> (is_versioned V r \<longrightarrow> \<not> isl (version_key V r))" for r
    by (cases "suggest_normalized_version V (version r)")
       (auto simp: is_versioned_def version_key_def split: option.splits)
  then show ?thesis by (simp add: no_raise_def list_all_iff)
qed

lemma list_sort_raise: "\<exists>x\<in>set xs. isl (f x) \<Longrightarrow> isl (list_sort f xs)"
  using map_keys_raise [of xs f] by (auto simp: list_sort_def split: sum.splits)

lemma reorder_package_raise:
  assumes "\<not> no_raise V (filter_package p tbl)"
  shows "isl (reorder_package V p tbl)"
proof (cases "\<exists>r\<in>set (filter_package p tbl). isl (suggest_normalized_version V (version r))")
  case True
  then have "isl (partition_loop V (filter_package p tbl) [] [])"
    by (rule partition_loop_raise)
  then show ?thesis
    by (auto simp: reorder_package_def Let_def split: sum.splits)
next
  case False
  let ?rs = "filter_package p tbl"
  from False have 1: "partition_loop V ?rs [] [] =
      Inr (filter (is_versioned V) ?rs, filter (is_dated V) ?rs)"
    using partition_loop_ok [of ?rs V "[]" "[]"] by simp
  from assms False obtain r where r: "r \<in> set ?rs" "is_versioned V r" "isl (version_key V r)"
    unfolding no_raise_iff by blast
  then have "isl (list_sort (version_key V) (filter (is_versioned V) ?rs))"
    by (intro list_sort_raise) auto
  then show ?thesis
    by (auto simp: reorder_package_def Let_def 1 split: sum.splits)
qed

lemma version_ordering_cases:
  assumes "version_ordering V kwargs tbl = Inr (tbl', log)"
  shows "(tbl' = tbl \<and> log = []) \<or>
         (\<exists>inst. kw_instance kwargs = Some inst
            \<and> no_raise V (filter_package (package inst) tbl)
            \<and> reorder_package V (package inst) tbl = Inr (tbl', log))"
proof (cases "kw_instance kwargs")
  case None
  with assms show ?thesis by (simp add: version_ordering_def)
next
  case (Some inst)
  show ?thesis
  proof (cases "case kw_created kwargs of None \<Rightarrow> True | Some c \<Rightarrow> c")
    case False
    with Some assms show ?thesis by (simp add: version_ordering_def)
  next
    case True
    with Some assms have run: "reorder_package V (package inst) tbl = Inr (tbl', log)"
      by (simp add: version_ordering_def)
    then have "no_raise V (filter_package (package inst) tbl)"
      using reorder_package_raise [of V "package inst" tbl] by auto
    with Some run show ?thesis by simp
  qed
qed

lemma renumber_frame: "(renumber i rs row)\<lparr>order := order row\<rparr> = row"
  by (simp add: renumber_def split: option.splits)

lemma issued_entry:
  assumes "(k, v) \<in> set (issued rs)"
  shows "\<exists>j<length rs. pk (rs ! j) = k \<and> v = int j \<and> order (rs ! j) \<noteq> int j"
  using assms by (auto simp: issued_def in_set_enumerate_eq)

lemma update_order_filter_package:
  "filter_package p (update_order k i tbl) = update_order k i (filter_package p tbl)"
  by (simp add: filter_package_def update_order_def filter_map comp_def if_distrib)

lemma sort_key_head_least:
  "sort_key f xs = y # ys \<Longrightarrow> x \<in> set xs \<Longrightarrow> f y \<le> f x"
proof -
  assume a: "sort_key f xs = y # ys" and b: "x \<in> set xs"
  have "sorted (map f (sort_key f xs))" by simp
  with a have "\<forall>z\<in>set (y # ys). f y \<le> f z" by auto
  moreover have "x \<in> set (sort_key f xs)" using b by simp
  ultimately show ?thesis using a by auto
qed

lemma spec_ordering_sorted:
  "sorted (map created (sort_key created (filter (is_dated V) rs)))
   \<and> sorted (map (normalized_version V)
               (sort_key (normalized_version V) (filter (is_versioned V) rs)))"
  by simp



lemma single_kw_instance: "kw_instance single_kwargs = Some single_instance"
  by (simp add: single_kwargs_def)

lemma single_created: "kw_created single_kwargs = Some True"
  by (simp add: single_kwargs_def)

subsection \<open>The result of a run, and runs on the same rows in another order\<close>

lemma filter_package_eq: "filter (\<lambda>r. package r = p) tbl = filter_package p tbl"
  by (simp add: filter_package_def)

lemma handler_result:
  assumes "kw_instance kwargs = Some inst" and "kw_created kwargs \<noteq> Some False"
    and "distinct (map pk tbl)"
    and "no_raise V (filter (\<lambda>r. package r = package inst) tbl)"
  shows "version_ordering V kwargs tbl =
           Inr (map (renumber 0 (spec_ordering V (filter (\<lambda>r. package r = package inst) tbl))) tbl,
                issued (spec_ordering V (filter (\<lambda>r. package r = package inst) tbl)))"
proof -
  have "version_ordering V kwargs tbl = reorder_package V (package inst) tbl"
    using assms(1,2) by (cases "kw_created kwargs") (auto simp: version_ordering_def)
  then show ?thesis
    using reorder_package_result [of V "package inst" tbl] assms(3,4)
    by (simp add: filter_package_eq)
qed

lemma final_facts:
  assumes "distinct (map pk tbl)"
    and "no_raise V (filter (\<lambda>r. package r = p) tbl)"
  shows "distinct (map pk (spec_ordering V (filter (\<lambda>r. package r = p) tbl)))"
    and "set (spec_ordering V (filter (\<lambda>r. package r = p) tbl)) = {r \<in> set tbl. package r = p}"
    and "length (spec_ordering V (filter (\<lambda>r. package r = p) tbl))
           = length (filter (\<lambda>r. package r = p) tbl)"
proof -
  show "distinct (map pk (spec_ordering V (filter (\<lambda>r. package r = p) tbl)))"
    using spec_ordering_distinct_pk [OF assms(2)] assms(1) by (simp add: distinct_map_filter)
  show "set (spec_ordering V (filter (\<lambda>r. package r = p) tbl)) = {r \<in> set tbl. package r = p}"
    using spec_ordering_set [OF assms(2)] by simp
  show "length (spec_ordering V (filter (\<lambda>r. package r = p) tbl))
           = length (filter (\<lambda>r. package r = p) tbl)"
    by (rule spec_ordering_length [OF assms(2)])
qed

lemma renumber_at:
  assumes "distinct (map pk rs)" and "i < length rs"
  shows "renumber 0 rs (rs ! i) = (rs ! i)\<lparr>order := int i\<rparr>"
  using position_nth [OF assms] by (simp add: renumber_def)

lemma renumber_member:
  assumes "distinct (map pk rs)" and "r \<in> set rs"
  shows "\<exists>i<length rs. rs ! i = r \<and> renumber 0 rs r = (rs ! i)\<lparr>order := int i\<rparr>"
  using position_member [OF assms] by (auto simp: renumber_def)

lemma renumber_other:
  "pk r \<notin> pk ` set rs \<Longrightarrow> renumber i rs r = r"
  using position_None [of "pk r" rs] by (simp add: renumber_def)

lemma spec_ordering_nth_dated:
  assumes "j < length (filter (is_dated V) rs)"
  shows "spec_ordering V rs ! j = sort_key created (filter (is_dated V) rs) ! j"
  using assms by (simp add: spec_ordering_def nth_append)

lemma spec_ordering_nth_versioned:
  assumes "length (filter (is_dated V) rs) \<le> j"
  shows "spec_ordering V rs ! j =
           sort_key (normalized_version V) (filter (is_versioned V) rs)
             ! (j - length (filter (is_dated V) rs))"
  using assms by (simp add: spec_ordering_def nth_append)

lemma spec_ordering_dated_mono:
  assumes "i < j" and "j < length (spec_ordering V rs)"
    and "is_dated V (spec_ordering V rs ! i)" and "is_dated V (spec_ordering V rs ! j)"
  shows "created (spec_ordering V rs ! i) \<le> created (spec_ordering V rs ! j)"
proof -
  let ?ds = "sort_key created (filter (is_dated V) rs)"
  have j: "j < length (filter (is_dated V) rs)"
    using spec_ordering_dated_index [OF assms(2)] assms(4) by simp
  with assms(1) have i: "i < length (filter (is_dated V) rs)" by simp
  have "sorted (map created ?ds)" by simp
  then have "map created ?ds ! i \<le> map created ?ds ! j"
    using assms(1) j by (intro sorted_nth_mono) simp_all
  then show ?thesis
    using i j by (simp add: spec_ordering_nth_dated)
qed

lemma spec_ordering_versioned_mono:
  assumes "no_raise V rs" and "i < j" and "j < length (spec_ordering V rs)"
    and "is_versioned V (spec_ordering V rs ! i)" and "is_versioned V (spec_ordering V rs ! j)"
  shows "normalized_version V (spec_ordering V rs ! i)
           \<le> normalized_version V (spec_ordering V rs ! j)"
proof -
  let ?n = "length (filter (is_dated V) rs)"
  let ?vs = "sort_key (normalized_version V) (filter (is_versioned V) rs)"
  have il: "i < length (spec_ordering V rs)" using assms(2,3) by simp
  have i: "?n \<le> i" using spec_ordering_versioned_index [OF assms(1) il] assms(4) by simp
  have j: "?n \<le> j" using spec_ordering_versioned_index [OF assms(1) assms(3)] assms(5) by simp
  have jl: "j - ?n < length ?vs" using assms(3) j by (simp add: spec_ordering_def)
  have "sorted (map (normalized_version V) ?vs)" by simp
  then have "map (normalized_version V) ?vs ! (i - ?n) \<le> map (normalized_version V) ?vs ! (j - ?n)"
    using assms(2) i j jl by (intro sorted_nth_mono) simp_all
  then show ?thesis
    using i j jl assms(2) by (simp add: spec_ordering_nth_versioned)
qed

lemma filter_renumber:
  "filter (\<lambda>r. package r = p) (map (renumber i rs) tbl)
     = map (renumber i rs) (filter (\<lambda>r. package r = p) tbl)"
  by (simp add: filter_map comp_def)

lemma renumber_identity:
  "map (\<lambda>r. (pk r, package r, version r)) (map (renumber i rs) tbl)
     = map (\<lambda>r. (pk r, package r, version r)) tbl"
  by simp

lemma sort_key_perm_inj:
  assumes "mset xs = mset ys" and "distinct (map f ys)"
  shows "sort_key f xs = sort_key f ys"
proof -
  have mx: "mset (map f (sort_key f xs)) = mset (map f ys)"
    using assms(1) by simp
  have my: "mset (map f (sort_key f ys)) = mset (map f ys)"
    by simp
  have dx: "distinct (map f (sort_key f xs))"
    using mx assms(2) by (metis mset_eq_imp_distinct_iff)
  have dy: "distinct (map f (sort_key f ys))"
    using my assms(2) by (metis mset_eq_imp_distinct_iff)
  have "set (map f (sort_key f xs)) = set (map f (sort_key f ys))"
    using mx my by (metis mset_eq_setD)
  then have eq: "map f (sort_key f xs) = map f (sort_key f ys)"
    using dx dy by (intro sorted_distinct_set_unique) simp_all
  have "set xs = set ys" using assms(1) by (rule mset_eq_setD)
  moreover have "inj_on f (set ys)" using assms(2) by (simp add: distinct_map)
  ultimately have "inj_on f (set (sort_key f xs) \<union> set (sort_key f ys))" by simp
  with eq show ?thesis by (rule map_inj_on)
qed

lemma spec_ordering_perm:
  assumes "mset xs = mset ys" and "tie_free V ys"
  shows "spec_ordering V xs = spec_ordering V ys"
proof -
  have m: "mset (filter P xs) = mset (filter P ys)" for P
    using assms(1) by simp
  have 1: "sort_key created (filter (is_dated V) xs) = sort_key created (filter (is_dated V) ys)"
    using assms(2) by (intro sort_key_perm_inj m) (simp add: tie_free_def)
  have 2: "sort_key (normalized_version V) (filter (is_versioned V) xs)
             = sort_key (normalized_version V) (filter (is_versioned V) ys)"
    using assms(2) by (intro sort_key_perm_inj m) (simp add: tie_free_def)
  show ?thesis by (simp only: spec_ordering_def 1 2)
qed

lemma tie_free_renumber [simp]: "tie_free V (map (renumber i rs) xs) = tie_free V xs"
  by (simp add: tie_free_def filter_map comp_def)

lemma no_raise_set: "set xs = set ys \<Longrightarrow> no_raise V xs = no_raise V ys"
  by (simp add: no_raise_def list_all_iff)


lemma sample_no_raise_rows:
  "no_raise sample_verlib (filter (\<lambda>r. package r = package sample_instance) sample_table)"
  by (simp add: sample_defs no_raise_def)

lemma sample_final:
  "spec_ordering sample_verlib (filter (\<lambda>r. package r = package sample_instance) sample_table)
     = [new_release 2 7 ''2023-01-dev'' 10, new_release 3 7 ''1.0'' 20, new_release 1 7 ''2.0'' 30]"
  by (simp add: sample_defs spec_ordering_def is_dated_def is_versioned_def
        normalized_version_def parse_def)

lemma sample_tie_free:
  "tie_free sample_verlib (filter (\<lambda>r. package r = package sample_instance) sample_table)"
  by (simp add: sample_defs tie_free_def is_dated_def is_versioned_def
        normalized_version_def parse_def)


section \<open>The claims\<close>

subsection \<open>C1: the handler follows the ordering of the specification\<close>

text \<open>
  Claim C1. For the package of a created release, the handler splits the package's
  releases into those whose version string normalizes and those whose version string
  does not, sorts the first group ascending by normalized version and the second
  ascending by creation time, puts the dated group before the versioned group, and
  writes to every release its position, counted from 0, in that sequence.

  The releases of the package are the rows of the table whose \<open>package\<close> is the
  instance's, and \<open>spec_ordering\<close> is the sequence in the words of the specification,
  with the normalized version taken from the library and not from the handler's sort
  key. The sequence holds every release of the package once; after the call its
  \<open>i\<close>-th release is in the table with \<open>order = i\<close>, and the table holds no other row
  of the package. Read off the table: of two releases of the package, the one with
  the smaller \<open>order\<close> is dated and the other versioned, or both are dated and it is
  not younger, or both are versioned and its normalized version is not greater. The
  primary keys of the table are distinct and the library raises on none of the
  package's versions.
\<close>

theorem version_ordering_follows_spec:
  assumes "kw_instance kwargs = Some inst" and "kw_created kwargs = Some True"
    and "distinct (map pk tbl)"
    and "no_raise V (filter (\<lambda>r. package r = package inst) tbl)"
  shows "\<exists>tbl' log.
           version_ordering V kwargs tbl = Inr (tbl', log)
         \<and> mset (spec_ordering V (filter (\<lambda>r. package r = package inst) tbl))
             = mset (filter (\<lambda>r. package r = package inst) tbl)
         \<and> (\<forall>i<length (spec_ordering V (filter (\<lambda>r. package r = package inst) tbl)).
               (spec_ordering V (filter (\<lambda>r. package r = package inst) tbl) ! i)\<lparr>order := int i\<rparr>
                 \<in> set tbl')
         \<and> (\<forall>r\<in>set tbl'. package r = package inst \<longrightarrow>
               (\<exists>i<length (spec_ordering V (filter (\<lambda>r. package r = package inst) tbl)).
                  r = (spec_ordering V (filter (\<lambda>r. package r = package inst) tbl) ! i)
                        \<lparr>order := int i\<rparr>))
         \<and> (\<forall>a\<in>set tbl'. \<forall>b\<in>set tbl'.
               package a = package inst \<and> package b = package inst \<and> order a < order b \<longrightarrow>
                 (is_dated V a \<and> is_versioned V b)
               \<or> (is_dated V a \<and> is_dated V b \<and> created a \<le> created b)
               \<or> (is_versioned V a \<and> is_versioned V b
                    \<and> normalized_version V a \<le> normalized_version V b))"
proof -
  let ?rs = "filter (\<lambda>r. package r = package inst) tbl"
  let ?final = "spec_ordering V ?rs"
  let ?tbl' = "map (renumber 0 ?final) tbl"
  have c: "kw_created kwargs \<noteq> Some False" using assms(2) by simp
  have run: "version_ordering V kwargs tbl = Inr (?tbl', issued ?final)"
    by (rule handler_result [OF assms(1) c assms(3,4)])
  note ff = final_facts [OF assms(3,4)]
  have 1: "mset ?final = mset ?rs"
    by (rule spec_ordering_mset [OF assms(4)])
  have 2: "(?final ! i)\<lparr>order := int i\<rparr> \<in> set ?tbl'" if "i < length ?final" for i
  proof -
    from that have "?final ! i \<in> set ?final" by (rule nth_mem)
    then have "?final ! i \<in> set tbl" using ff(2) by simp
    then have "renumber 0 ?final (?final ! i) \<in> set ?tbl'" by simp
    then show ?thesis using renumber_at [OF ff(1) that] by simp
  qed
  have 3: "\<exists>i<length ?final. r = (?final ! i)\<lparr>order := int i\<rparr>"
    if "r \<in> set ?tbl'" "package r = package inst" for r
  proof -
    from that(1) obtain r0 where r0: "r0 \<in> set tbl" "r = renumber 0 ?final r0" by auto
    with that(2) have "r0 \<in> set ?final" using ff(2) by simp
    from renumber_member [OF ff(1) this] r0(2) show ?thesis by auto
  qed
  have 4: "(is_dated V a \<and> is_versioned V b)
         \<or> (is_dated V a \<and> is_dated V b \<and> created a \<le> created b)
         \<or> (is_versioned V a \<and> is_versioned V b
              \<and> normalized_version V a \<le> normalized_version V b)"
    if "a \<in> set ?tbl'" "b \<in> set ?tbl'" "package a = package inst"
      "package b = package inst" "order a < order b" for a b
  proof -
    from 3 [OF that(1,3)] obtain i where
      i: "i < length ?final" "a = (?final ! i)\<lparr>order := int i\<rparr>" by blast
    from 3 [OF that(2,4)] obtain j where
      j: "j < length ?final" "b = (?final ! j)\<lparr>order := int j\<rparr>" by blast
    from that(5) i(2) j(2) have ij: "i < j" by simp
    have da: "is_dated V a = is_dated V (?final ! i)"
      and va: "is_versioned V a = is_versioned V (?final ! i)"
      and db: "is_dated V b = is_dated V (?final ! j)"
      and vb: "is_versioned V b = is_versioned V (?final ! j)"
      and ca: "created a = created (?final ! i)" and cb: "created b = created (?final ! j)"
      and na: "normalized_version V a = normalized_version V (?final ! i)"
      and nb: "normalized_version V b = normalized_version V (?final ! j)"
      by (simp_all add: i(2) j(2) is_dated_def is_versioned_def normalized_version_def)
    have mem: "?final ! i \<in> set ?rs" "?final ! j \<in> set ?rs"
      using spec_ordering_set [OF assms(4)] i(1) j(1) nth_mem by blast+
    have ci: "is_dated V (?final ! i) \<or> is_versioned V (?final ! i)"
      by (rule no_raise_cases [OF assms(4) mem(1)])
    have cj: "is_dated V (?final ! j) \<or> is_versioned V (?final ! j)"
      by (rule no_raise_cases [OF assms(4) mem(2)])
    show ?thesis
    proof (cases "is_dated V (?final ! j)")
      case True
      then have "j < length (filter (is_dated V) ?rs)"
        using spec_ordering_dated_index [OF j(1)] by simp
      with ij have "i < length (filter (is_dated V) ?rs)" by simp
      then have di: "is_dated V (?final ! i)"
        using spec_ordering_dated_index [OF i(1)] by simp
      from spec_ordering_dated_mono [OF ij j(1) di True] di True
      show ?thesis by (simp add: da db ca cb)
    next
      case False
      with cj have vj: "is_versioned V (?final ! j)" by simp
      show ?thesis
      proof (cases "is_dated V (?final ! i)")
        case True
        with vj show ?thesis by (simp add: da vb)
      next
        case False
        with ci have vi: "is_versioned V (?final ! i)" by simp
        from spec_ordering_versioned_mono [OF assms(4) ij j(1) vi vj] vi vj
        show ?thesis by (simp add: va vb na nb)
      qed
    qed
  qed
  from run 1 2 3 4 show ?thesis by blast
qed

theorem version_ordering_follows_spec_witness:
  "kw_instance sample_kwargs = Some sample_instance
   \<and> kw_created sample_kwargs = Some True
   \<and> distinct (map pk sample_table)
   \<and> no_raise sample_verlib (filter (\<lambda>r. package r = package sample_instance) sample_table)
   \<and> version_ordering sample_verlib sample_kwargs sample_table = Inr (sample_result, sample_log)
   \<and> spec_ordering sample_verlib (filter (\<lambda>r. package r = package sample_instance) sample_table)
       = [new_release 2 7 ''2023-01-dev'' 10, new_release 3 7 ''1.0'' 20,
          new_release 1 7 ''2.0'' 30]
   \<and> (new_release 2 7 ''2023-01-dev'' 10)\<lparr>order := 0\<rparr> \<in> set sample_result
   \<and> (new_release 3 7 ''1.0'' 20)\<lparr>order := 1\<rparr> \<in> set sample_result
   \<and> (new_release 1 7 ''2.0'' 30)\<lparr>order := 2\<rparr> \<in> set sample_result"
proof -
  note h = sample_kw_instance sample_created sample_distinct sample_no_raise_rows
  from version_ordering_follows_spec [OF h] obtain tbl' log where
    r: "version_ordering sample_verlib sample_kwargs sample_table = Inr (tbl', log)"
    and p: "\<forall>i<length (spec_ordering sample_verlib
                (filter (\<lambda>r. package r = package sample_instance) sample_table)).
              (spec_ordering sample_verlib
                (filter (\<lambda>r. package r = package sample_instance) sample_table) ! i)
                \<lparr>order := int i\<rparr> \<in> set tbl'"
    by (elim exE conjE)
  from r sample_run have t: "tbl' = sample_result" by simp
  note q = p [unfolded sample_final t, rule_format]
  have a0: "(new_release 2 7 ''2023-01-dev'' 10)\<lparr>order := 0\<rparr> \<in> set sample_result"
    using q [of 0] by simp
  have a1: "(new_release 3 7 ''1.0'' 20)\<lparr>order := 1\<rparr> \<in> set sample_result"
    using q [of 1] by simp
  have a2: "(new_release 1 7 ''2.0'' 30)\<lparr>order := 2\<rparr> \<in> set sample_result"
    using q [of 2] by simp
  show ?thesis by (intro conjI h sample_run sample_final a0 a1 a2)
qed

subsection \<open>C2: the orders of a package are 0 to N - 1, each once\<close>

text \<open>
  Claim C2. After the handler has run, the table holds the same releases, and the
  \<open>order\<close> values of the \<open>N\<close> rows whose \<open>package\<close> is the instance's are pairwise
  different and are exactly the numbers \<open>0, \<dots>, N - 1\<close>.
\<close>

theorem orders_contiguous:
  assumes "kw_instance kwargs = Some inst" and "kw_created kwargs = Some True"
    and "distinct (map pk tbl)"
    and "no_raise V (filter (\<lambda>r. package r = package inst) tbl)"
  shows "\<exists>tbl' log.
           version_ordering V kwargs tbl = Inr (tbl', log)
         \<and> map (\<lambda>r. (pk r, package r, version r)) tbl'
             = map (\<lambda>r. (pk r, package r, version r)) tbl
         \<and> length (filter (\<lambda>r. package r = package inst) tbl')
             = length (filter (\<lambda>r. package r = package inst) tbl)
         \<and> distinct (map order (filter (\<lambda>r. package r = package inst) tbl'))
         \<and> set (map order (filter (\<lambda>r. package r = package inst) tbl'))
             = int ` {0..<length (filter (\<lambda>r. package r = package inst) tbl)}"
proof -
  let ?rs = "filter (\<lambda>r. package r = package inst) tbl"
  let ?final = "spec_ordering V ?rs"
  let ?tbl' = "map (renumber 0 ?final) tbl"
  let ?rs' = "filter (\<lambda>r. package r = package inst) ?tbl'"
  let ?g = "\<lambda>r. order (renumber 0 ?final r)"
  have c: "kw_created kwargs \<noteq> Some False" using assms(2) by simp
  have run: "version_ordering V kwargs tbl = Inr (?tbl', issued ?final)"
    by (rule handler_result [OF assms(1) c assms(3,4)])
  note ff = final_facts [OF assms(3,4)]
  have same: "map (\<lambda>r. (pk r, package r, version r)) ?tbl'
                = map (\<lambda>r. (pk r, package r, version r)) tbl"
    by (rule renumber_identity)
  have rs': "?rs' = map (renumber 0 ?final) ?rs"
    by (rule filter_renumber)
  have "mset (map ?g ?rs) = mset (map ?g ?final)"
    using arg_cong [OF spec_ordering_mset [OF assms(4)], of "image_mset ?g"] by simp
  also have "\<dots> = mset (map int [0..<length ?rs])"
    using renumber_orders [OF ff(1)] ff(3) by simp
  finally have m: "mset (map order ?rs') = mset (map int [0..<length ?rs])"
    by (simp add: rs' comp_def)
  have "distinct (map int [0..<length ?rs])"
    by (simp add: distinct_map)
  then have d: "distinct (map order ?rs')"
    by (rule mset_eq_imp_distinct_iff [OF m, THEN iffD2])
  have "set (map order ?rs') = set (map int [0..<length ?rs])"
    by (rule mset_eq_setD [OF m])
  then have st: "set (map order ?rs') = int ` {0..<length ?rs}"
    by simp
  have l: "length ?rs' = length ?rs"
    by (simp add: rs')
  show ?thesis
    by (rule exI [of _ ?tbl'], rule exI [of _ "issued ?final"]) (intro conjI run same l d st)
qed

theorem orders_contiguous_witness:
  "kw_instance sample_kwargs = Some sample_instance
   \<and> kw_created sample_kwargs = Some True
   \<and> distinct (map pk sample_table)
   \<and> no_raise sample_verlib (filter (\<lambda>r. package r = package sample_instance) sample_table)
   \<and> version_ordering sample_verlib sample_kwargs sample_table = Inr (sample_result, sample_log)
   \<and> map order (filter (\<lambda>r. package r = package sample_instance) sample_result) = [2, 0, 1]
   \<and> length (filter (\<lambda>r. package r = package sample_instance) sample_table) = 3
   \<and> distinct (map order (filter (\<lambda>r. package r = package sample_instance) sample_result))
   \<and> set (map order (filter (\<lambda>r. package r = package sample_instance) sample_result))
       = int ` {0..<length (filter (\<lambda>r. package r = package sample_instance) sample_table)}"
proof -
  note h = sample_kw_instance sample_created sample_distinct sample_no_raise_rows
  from orders_contiguous [OF h] obtain tbl' log where
    r: "version_ordering sample_verlib sample_kwargs sample_table = Inr (tbl', log)"
    and d: "distinct (map order (filter (\<lambda>r. package r = package sample_instance) tbl'))"
    and s: "set (map order (filter (\<lambda>r. package r = package sample_instance) tbl'))
       = int ` {0..<length (filter (\<lambda>r. package r = package sample_instance) sample_table)}"
    by (elim exE conjE)
  from r sample_run have t: "tbl' = sample_result" by simp
  have o: "map order (filter (\<lambda>r. package r = package sample_instance) sample_result) = [2, 0, 1]"
    by (simp add: sample_defs)
  have l: "length (filter (\<lambda>r. package r = package sample_instance) sample_table) = 3"
    by (simp add: sample_defs)
  show ?thesis by (intro conjI h sample_run o l d [unfolded t] s [unfolded t])
qed

subsection \<open>C3: dated releases come before versioned releases\<close>

text \<open>
  Claim C3. After the handler has run, the table holds the same releases, and every
  dated release of the package has a strictly smaller \<open>order\<close> than every versioned
  release of the package, whatever their versions and creation times are.
\<close>

theorem dated_before_versioned:
  assumes "kw_instance kwargs = Some inst" and "kw_created kwargs = Some True"
    and "distinct (map pk tbl)"
    and "no_raise V (filter (\<lambda>r. package r = package inst) tbl)"
  shows "\<exists>tbl' log.
           version_ordering V kwargs tbl = Inr (tbl', log)
         \<and> map (\<lambda>r. (pk r, package r, version r)) tbl'
             = map (\<lambda>r. (pk r, package r, version r)) tbl
         \<and> (\<forall>d\<in>set tbl'. \<forall>r\<in>set tbl'.
               package d = package inst \<and> package r = package inst
               \<and> is_dated V d \<and> is_versioned V r \<longrightarrow> order d < order r)"
proof -
  let ?rs = "filter (\<lambda>r. package r = package inst) tbl"
  let ?final = "spec_ordering V ?rs"
  let ?tbl' = "map (renumber 0 ?final) tbl"
  let ?n = "length (filter (is_dated V) ?rs)"
  have c: "kw_created kwargs \<noteq> Some False" using assms(2) by simp
  have run: "version_ordering V kwargs tbl = Inr (?tbl', issued ?final)"
    by (rule handler_result [OF assms(1) c assms(3,4)])
  note ff = final_facts [OF assms(3,4)]
  have same: "map (\<lambda>r. (pk r, package r, version r)) ?tbl'
                = map (\<lambda>r. (pk r, package r, version r)) tbl"
    by (rule renumber_identity)
  have pos: "\<exists>j<length ?final. ?final ! j = x \<and> order (renumber 0 ?final x) = int j"
    if "x \<in> set tbl" "package x = package inst" for x
  proof -
    from that have "x \<in> set ?final" using ff(2) by simp
    from renumber_member [OF ff(1) this] show ?thesis by auto
  qed
  have lt: "order d < order r"
    if "d \<in> set ?tbl'" "r \<in> set ?tbl'" "package d = package inst" "package r = package inst"
      "is_dated V d" "is_versioned V r" for d r
  proof -
    from that(1) obtain d0 where d0: "d0 \<in> set tbl" "d = renumber 0 ?final d0" by auto
    from that(2) obtain r0 where r0: "r0 \<in> set tbl" "r = renumber 0 ?final r0" by auto
    from that(3,5) d0(2) have pd: "package d0 = package inst" "is_dated V d0" by simp_all
    from that(4,6) r0(2) have pr: "package r0 = package inst" "is_versioned V r0" by simp_all
    from pos [OF d0(1) pd(1)] obtain j1 where
      j1: "j1 < length ?final" "?final ! j1 = d0" "order (renumber 0 ?final d0) = int j1"
      by blast
    from pos [OF r0(1) pr(1)] obtain j2 where
      j2: "j2 < length ?final" "?final ! j2 = r0" "order (renumber 0 ?final r0) = int j2"
      by blast
    have "j1 < ?n" using spec_ordering_dated_index [OF j1(1)] j1(2) pd(2) by simp
    moreover have "?n \<le> j2"
      using spec_ordering_versioned_index [OF assms(4) j2(1)] j2(2) pr(2) by simp
    ultimately show ?thesis using j1(3) j2(3) d0(2) r0(2) by simp
  qed
  have ord: "\<forall>d\<in>set ?tbl'. \<forall>r\<in>set ?tbl'.
               package d = package inst \<and> package r = package inst
               \<and> is_dated V d \<and> is_versioned V r \<longrightarrow> order d < order r"
    using lt by (intro ballI impI) (elim conjE)
  show ?thesis
    by (rule exI [of _ ?tbl'], rule exI [of _ "issued ?final"]) (intro conjI run same ord)
qed

theorem dated_before_versioned_witness:
  "kw_instance sample_kwargs = Some sample_instance
   \<and> kw_created sample_kwargs = Some True
   \<and> distinct (map pk sample_table)
   \<and> no_raise sample_verlib (filter (\<lambda>r. package r = package sample_instance) sample_table)
   \<and> version_ordering sample_verlib sample_kwargs sample_table = Inr (sample_result, sample_log)
   \<and> is_dated sample_verlib (sample_result ! 1)
   \<and> is_versioned sample_verlib (sample_result ! 0)
   \<and> is_versioned sample_verlib (sample_result ! 2)
   \<and> order (sample_result ! 1) < order (sample_result ! 0)
   \<and> order (sample_result ! 1) < order (sample_result ! 2)"
proof -
  note h = sample_kw_instance sample_created sample_distinct sample_no_raise_rows
  from dated_before_versioned [OF h] obtain tbl' log where
    r: "version_ordering sample_verlib sample_kwargs sample_table = Inr (tbl', log)"
    and b: "\<forall>d\<in>set tbl'. \<forall>r\<in>set tbl'.
               package d = package sample_instance \<and> package r = package sample_instance
               \<and> is_dated sample_verlib d \<and> is_versioned sample_verlib r \<longrightarrow> order d < order r"
    by (elim exE conjE)
  from r sample_run have t: "tbl' = sample_result" by simp
  have m: "sample_result ! 0 \<in> set sample_result" "sample_result ! 1 \<in> set sample_result"
    "sample_result ! 2 \<in> set sample_result"
    by (simp_all add: sample_result_def)
  have p: "package (sample_result ! 0) = package sample_instance"
    "package (sample_result ! 1) = package sample_instance"
    "package (sample_result ! 2) = package sample_instance"
    by (simp_all add: sample_defs)
  have d1: "is_dated sample_verlib (sample_result ! 1)"
    by (simp add: sample_defs is_dated_def)
  have v0: "is_versioned sample_verlib (sample_result ! 0)"
    and v2: "is_versioned sample_verlib (sample_result ! 2)"
    by (simp_all add: sample_defs is_versioned_def)
  note q = b [unfolded t, rule_format]
  have l0: "order (sample_result ! 1) < order (sample_result ! 0)"
    by (rule q [OF m(2) m(1)]) (intro conjI p d1 v0)
  have l2: "order (sample_result ! 1) < order (sample_result ! 2)"
    by (rule q [OF m(2) m(3)]) (intro conjI p d1 v2)
  show ?thesis by (intro conjI h sample_run d1 v0 v2 l0 l2)
qed

subsection \<open>C4: a second run\<close>

text \<open>
  Claim C4 says that a second run on the same set of releases leaves every \<open>order\<close>
  unchanged and writes nothing. The handler reads the releases without \<open>order_by\<close>
  and its sorts are stable, so two releases that tie on their sort key keep the order
  in which they are read: for the versions \<open>1.0.0\<close> and \<open>1.0\<close>, which normalize to
  equal versions, a second run that reads the same two rows in the other order swaps
  their \<open>order\<close> values with two updates.
\<close>

theorem tie_reorder_counterexample:
  "version_ordering tie_verlib tie_kwargs tie_table = Inr (tie_result, [(2, 1)])
   \<and> mset (rev tie_result) = mset tie_result
   \<and> version_ordering tie_verlib tie_kwargs (rev tie_result) = Inr (tie_swapped, [(2, 0), (1, 1)])"
  by (simp add: sample_defs version_ordering_def reorder_package_def filter_package_def
        list_sort_def version_key_def created_key_def update_order_def)

text \<open>
  Claim C4, amended. A second run that reads the rows in the order of the first run
  leaves every \<open>order\<close> unchanged and issues no update. When no two dated releases of
  the package share a creation time and no two versioned releases share a normalized
  version, the same holds for a second run that reads the same rows in any order.
\<close>

theorem version_ordering_idempotent:
  assumes "kw_instance kwargs = Some inst" and "kw_created kwargs = Some True"
    and "distinct (map pk tbl)"
    and "no_raise V (filter (\<lambda>r. package r = package inst) tbl)"
  shows "\<exists>tbl' log.
           version_ordering V kwargs tbl = Inr (tbl', log)
         \<and> version_ordering V kwargs tbl' = Inr (tbl', [])
         \<and> (tie_free V (filter (\<lambda>r. package r = package inst) tbl) \<longrightarrow>
              (\<forall>tbl''. mset tbl'' = mset tbl' \<longrightarrow>
                 version_ordering V kwargs tbl'' = Inr (tbl'', [])))"
proof -
  let ?rs = "filter (\<lambda>r. package r = package inst) tbl"
  let ?final = "spec_ordering V ?rs"
  let ?f = "renumber 0 ?final"
  let ?tbl' = "map ?f tbl"
  have c: "kw_created kwargs \<noteq> Some False" using assms(2) by simp
  have run: "version_ordering V kwargs tbl = Inr (?tbl', issued ?final)"
    by (rule handler_result [OF assms(1) c assms(3,4)])
  note ff = final_facts [OF assms(3,4)]
  have rs': "filter (\<lambda>r. package r = package inst) ?tbl' = map ?f ?rs"
    by (rule filter_renumber)
  have fixed: "assign_loop 0 (map ?f ?final) s = s" for s
  proof (rule assign_loop_fixed)
    show "\<forall>j<length (map ?f ?final). order (map ?f ?final ! j) = int (0 + j)"
      using ff(1) by (simp add: renumber_def position_nth)
  qed
  have again: "version_ordering V kwargs t = Inr (t, [])"
    if nr: "no_raise V (filter (\<lambda>r. package r = package inst) t)"
      and fin: "spec_ordering V (filter (\<lambda>r. package r = package inst) t) = map ?f ?final"
    for t
  proof -
    have "version_ordering V kwargs t = reorder_package V (package inst) t"
      by (rule version_ordering_created [OF assms(1,2)])
    also have "\<dots> = Inr (assign_loop 0 (map ?f ?final) (t, []))"
      using reorder_package_no_raise [of V "package inst" t] nr fin
      by (simp add: filter_package_eq)
    finally show ?thesis by (simp add: fixed)
  qed
  have second: "version_ordering V kwargs ?tbl' = Inr (?tbl', [])"
  proof (rule again)
    show "no_raise V (filter (\<lambda>r. package r = package inst) ?tbl')"
      using assms(4) by (simp add: rs')
    show "spec_ordering V (filter (\<lambda>r. package r = package inst) ?tbl') = map ?f ?final"
      by (simp add: rs' spec_ordering_renumber)
  qed
  have perm: "version_ordering V kwargs t = Inr (t, [])"
    if tf: "tie_free V ?rs" and m: "mset t = mset ?tbl'" for t
  proof (rule again)
    have "mset (filter (\<lambda>r. package r = package inst) t)
            = mset (filter (\<lambda>r. package r = package inst) ?tbl')"
      using m by (simp only: mset_filter)
    then have mf: "mset (filter (\<lambda>r. package r = package inst) t) = mset (map ?f ?rs)"
      by (simp only: rs')
    then have "set (filter (\<lambda>r. package r = package inst) t) = set (map ?f ?rs)"
      by (rule mset_eq_setD)
    then show "no_raise V (filter (\<lambda>r. package r = package inst) t)"
      using assms(4) no_raise_set [of _ "map ?f ?rs" V] by simp
    have "tie_free V (map ?f ?rs)" using tf by simp
    from spec_ordering_perm [OF mf this]
    show "spec_ordering V (filter (\<lambda>r. package r = package inst) t) = map ?f ?final"
      by (simp add: spec_ordering_renumber)
  qed
  have any: "tie_free V ?rs \<longrightarrow>
              (\<forall>t. mset t = mset ?tbl' \<longrightarrow> version_ordering V kwargs t = Inr (t, []))"
    using perm by (intro impI allI)
  show ?thesis
    by (rule exI [of _ ?tbl'], rule exI [of _ "issued ?final"]) (intro conjI run second any)
qed

theorem version_ordering_idempotent_witness:
  "kw_instance sample_kwargs = Some sample_instance
   \<and> kw_created sample_kwargs = Some True
   \<and> distinct (map pk sample_table)
   \<and> no_raise sample_verlib (filter (\<lambda>r. package r = package sample_instance) sample_table)
   \<and> tie_free sample_verlib (filter (\<lambda>r. package r = package sample_instance) sample_table)
   \<and> version_ordering sample_verlib sample_kwargs sample_table = Inr (sample_result, sample_log)
   \<and> version_ordering sample_verlib sample_kwargs sample_result = Inr (sample_result, [])
   \<and> version_ordering sample_verlib sample_kwargs (rev sample_result)
       = Inr (rev sample_result, [])"
proof -
  note h = sample_kw_instance sample_created sample_distinct sample_no_raise_rows
  from version_ordering_idempotent [OF h] obtain tbl' log where
    r: "version_ordering sample_verlib sample_kwargs sample_table = Inr (tbl', log)"
    and s: "version_ordering sample_verlib sample_kwargs tbl' = Inr (tbl', [])"
    and p: "tie_free sample_verlib
              (filter (\<lambda>r. package r = package sample_instance) sample_table) \<longrightarrow>
            (\<forall>tbl''. mset tbl'' = mset tbl' \<longrightarrow>
               version_ordering sample_verlib sample_kwargs tbl'' = Inr (tbl'', []))"
    by (elim exE conjE)
  from r sample_run have t: "tbl' = sample_result" by simp
  have m: "mset (rev sample_result) = mset sample_result" by simp
  have any: "version_ordering sample_verlib sample_kwargs (rev sample_result)
               = Inr (rev sample_result, [])"
    by (rule p [unfolded t, THEN mp, OF sample_tie_free, rule_format, OF m])
  show ?thesis by (intro conjI h sample_tie_free sample_run s [unfolded t] any)
qed

subsection \<open>C5: only the order column is written\<close>

text \<open>
  Claim C5. A run of the handler changes no column but \<open>order\<close>: the table keeps its
  rows, and every row is the row it was before up to its \<open>order\<close>. A release whose
  \<open>order\<close> is its computed position already is not written: its row is unchanged and
  no update names its primary key. Every update that is issued changes the \<open>order\<close>
  of a row.
\<close>

theorem only_order_written:
  assumes "distinct (map pk tbl)"
    and "version_ordering V kwargs tbl = Inr (tbl', log)"
  shows "length tbl' = length tbl
       \<and> (\<forall>j<length tbl. (tbl' ! j)\<lparr>order := order (tbl ! j)\<rparr> = tbl ! j)
       \<and> (\<forall>j<length tbl. order (tbl' ! j) = order (tbl ! j)
             \<longrightarrow> tbl' ! j = tbl ! j \<and> pk (tbl ! j) \<notin> fst ` set log)
       \<and> (\<forall>(k, v)\<in>set log. \<exists>j<length tbl. pk (tbl ! j) = k \<and> order (tbl ! j) \<noteq> v
             \<and> order (tbl' ! j) = v)"
proof -
  from version_ordering_cases [OF assms(2)] show ?thesis
  proof
    assume "tbl' = tbl \<and> log = []"
    then show ?thesis by simp
  next
    assume "\<exists>inst. kw_instance kwargs = Some inst
            \<and> no_raise V (filter_package (package inst) tbl)
            \<and> reorder_package V (package inst) tbl = Inr (tbl', log)"
    then obtain inst :: Release where nr: "no_raise V (filter_package (package inst) tbl)"
      and run: "reorder_package V (package inst) tbl = Inr (tbl', log)"
      by blast
    let ?final = "spec_ordering V (filter_package (package inst) tbl)"
    from run reorder_package_result [OF nr assms(1)]
    have tbl': "tbl' = map (renumber 0 ?final) tbl" and log: "log = issued ?final"
      by simp_all
    have df: "distinct (map pk ?final)"
      by (rule spec_ordering_distinct_pk [OF nr filter_package_distinct [OF assms(1)]])
    have sub: "set ?final \<subseteq> set tbl"
      using spec_ordering_set [OF nr] filter_package_subset by blast
    have entry: "\<exists>j<length tbl. tbl ! j = ?final ! i" if "i < length ?final" for i
      using that sub nth_mem in_set_conv_nth by (metis subsetD)
    have 1: "length tbl' = length tbl" by (simp add: tbl')
    have 2: "\<forall>j<length tbl. (tbl' ! j)\<lparr>order := order (tbl ! j)\<rparr> = tbl ! j"
      by (simp add: tbl' renumber_frame)
    have 3: "tbl' ! j = tbl ! j \<and> pk (tbl ! j) \<notin> fst ` set log"
      if j: "j < length tbl" and same: "order (tbl' ! j) = order (tbl ! j)" for j
    proof
      from 2 j have "(tbl' ! j)\<lparr>order := order (tbl ! j)\<rparr> = tbl ! j" by simp
      with same show "tbl' ! j = tbl ! j" by (metis Release.surjective Release.update_convs(7))
      show "pk (tbl ! j) \<notin> fst ` set log"
      proof
        assume "pk (tbl ! j) \<in> fst ` set log"
        then obtain v where "(pk (tbl ! j), v) \<in> set (issued ?final)"
          by (auto simp: log)
        from issued_entry [OF this] obtain i where i: "i < length ?final"
          "pk (?final ! i) = pk (tbl ! j)" "order (?final ! i) \<noteq> int i" by blast
        have "?final ! i \<in> set tbl" using i(1) sub nth_mem by blast
        moreover have "tbl ! j \<in> set tbl" using j by simp
        ultimately have eq: "?final ! i = tbl ! j"
          using same_pk_same_row [OF assms(1)] i(2) by blast
        have "order (tbl' ! j) = int i"
          using j eq [symmetric] position_nth [OF df i(1)] by (simp add: tbl' renumber_def)
        with same eq i(3) show False by simp
      qed
    qed
    have 4: "\<exists>j<length tbl. pk (tbl ! j) = k \<and> order (tbl ! j) \<noteq> v \<and> order (tbl' ! j) = v"
      if "(k, v) \<in> set log" for k v
    proof -
      from that issued_entry [of k v ?final] obtain i where i: "i < length ?final"
        "pk (?final ! i) = k" "v = int i" "order (?final ! i) \<noteq> int i" by (auto simp: log)
      from entry [OF i(1)] obtain j where j: "j < length tbl" "tbl ! j = ?final ! i" by blast
      have "order (tbl' ! j) = int i"
        using j position_nth [OF df i(1)] by (simp add: tbl' renumber_def)
      with i j show ?thesis by auto
    qed
    from 1 2 3 4 show ?thesis by blast
  qed
qed

theorem only_order_written_witness:
  "distinct (map pk sample_table)
   \<and> version_ordering sample_verlib sample_kwargs sample_table = Inr (sample_result, sample_log)
   \<and> length sample_result = length sample_table
   \<and> (sample_result ! 0)\<lparr>order := order (sample_table ! 0)\<rparr> = sample_table ! 0
   \<and> order (sample_result ! 1) = order (sample_table ! 1)
   \<and> sample_result ! 1 = sample_table ! 1
   \<and> pk (sample_table ! 1) \<notin> fst ` set sample_log
   \<and> (\<exists>j<length sample_table. pk (sample_table ! j) = 3 \<and> order (sample_table ! j) \<noteq> 1
         \<and> order (sample_result ! j) = 1)"
proof -
  note t = only_order_written [OF sample_distinct sample_run]
  have l0: "0 < length sample_table" and l1: "1 < length sample_table"
    by (simp_all add: sample_table_def)
  have same: "order (sample_result ! 1) = order (sample_table ! 1)"
    by (simp add: sample_defs)
  from t have c1: "length sample_result = length sample_table"
    by (rule conjunct1)
  from t l0 have c2: "(sample_result ! 0)\<lparr>order := order (sample_table ! 0)\<rparr> = sample_table ! 0"
    by blast
  from t l1 same have c3: "sample_result ! 1 = sample_table ! 1
      \<and> pk (sample_table ! 1) \<notin> fst ` set sample_log"
    by blast
  from t have "\<forall>(k, v)\<in>set sample_log.
      \<exists>j<length sample_table. pk (sample_table ! j) = k \<and> order (sample_table ! j) \<noteq> v
        \<and> order (sample_result ! j) = v"
    by (elim conjE)
  then have c4: "\<exists>j<length sample_table. pk (sample_table ! j) = 3
      \<and> order (sample_table ! j) \<noteq> 1 \<and> order (sample_result ! j) = 1"
    by (simp add: sample_log_def)
  from sample_distinct sample_run c1 c2 same c3 c4 show ?thesis
    by (intro conjI) simp_all
qed

subsection \<open>C6: when the handler recomputes\<close>




subsection \<open>C7: a failing normalization\<close>




subsection \<open>C8: the only release of a package gets order 0\<close>

text \<open>
  Claim C8. When the created release is the only release of its package, the handler
  leaves it with \<open>order = 0\<close>.
\<close>

theorem single_release_order_zero:
  assumes "kw_instance kwargs = Some inst" and "kw_created kwargs = Some True"
    and "filter_package (package inst) tbl = [r]"
    and "no_raise V [r]"
  shows "\<exists>tbl' log. version_ordering V kwargs tbl = Inr (tbl', log)
           \<and> filter_package (package inst) tbl' = [r\<lparr>order := 0\<rparr>]"
proof -
  have nr: "no_raise V (filter_package (package inst) tbl)"
    using assms(3,4) by simp
  have "is_dated V r \<or> is_versioned V r"
    using no_raise_cases [OF assms(4)] by simp
  then have final: "spec_ordering V [r] = [r]"
    using dated_not_versioned [of V r] by (auto simp: spec_ordering_def)
  have run: "version_ordering V kwargs tbl = Inr (assign_loop 0 [r] (tbl, []))"
    by (simp add: version_ordering_created [OF assms(1,2)] reorder_package_no_raise [OF nr]
          assms(3) final)
  show ?thesis
  proof (cases "order r = 0")
    case True
    then have "r\<lparr>order := 0\<rparr> = r" by (metis Release.surjective Release.update_convs(7))
    with True run assms(3) show ?thesis by simp
  next
    case False
    with run assms(3) show ?thesis
      by (simp add: update_order_filter_package) (simp add: update_order_def)
  qed
qed

theorem single_release_order_zero_witness:
  "filter_package (package single_instance) single_table = [single_instance]
   \<and> no_raise sample_verlib [single_instance]
   \<and> order single_instance = 3
   \<and> (\<exists>tbl' log. version_ordering sample_verlib single_kwargs single_table = Inr (tbl', log)
         \<and> filter_package (package single_instance) tbl' = [single_instance\<lparr>order := 0\<rparr>])"
proof -
  have f: "filter_package (package single_instance) single_table = [single_instance]"
    by (simp add: sample_defs filter_package_def)
  have n: "no_raise sample_verlib [single_instance]"
    by (simp add: sample_defs no_raise_def)
  have o: "order single_instance = 3"
    by (simp add: sample_defs)
  from f n o single_release_order_zero [OF single_kw_instance single_created f n]
  show ?thesis by (intro conjI)
qed

subsection \<open>C9: the latest release\<close>

text \<open>
  Claim C9 says that \<open>latest\<close> yields the release of the package with the highest
  \<open>order\<close>. The property keeps its first value in the attribute \<open>_latest_release\<close>:
  read once, then read again after a release with a higher \<open>order\<close> has come into
  the table, it still yields the old release.
\<close>

theorem latest_stale_counterexample:
  "fst (latest (snd (latest sample_package first_table)) second_table) = Some first_release
   \<and> second_release \<in> set second_table
   \<and> package second_release = package_pk sample_package
   \<and> order first_release < order second_release"
  by (simp add: sample_defs latest_def filter_package_def order_by_minus_order_def Let_def)

text \<open>
  Claim C9, amended. For a package with at least one release, the first read of
  \<open>latest\<close> on a package object (one that has no attribute \<open>_latest_release\<close> yet)
  yields a release of the package whose \<open>order\<close> is the highest. Every read stores
  its value in the attribute, and every later read on that object yields the stored
  value, whatever the table holds then.
\<close>

theorem latest_first_read:
  "(latest_release self = None \<and> (\<exists>x\<in>set tbl. package x = package_pk self)
      \<longrightarrow> (\<exists>r. fst (latest self tbl) = Some r
               \<and> r \<in> set tbl \<and> package r = package_pk self
               \<and> (\<forall>x\<in>set tbl. package x = package_pk self \<longrightarrow> order x \<le> order r)))
   \<and> latest_release (snd (latest self tbl)) = Some (fst (latest self tbl))
   \<and> (\<forall>tbl2. latest (snd (latest self tbl)) tbl2 = (fst (latest self tbl), snd (latest self tbl)))"
proof (intro conjI impI allI)
  assume a: "latest_release self = None \<and> (\<exists>x\<in>set tbl. package x = package_pk self)"
  let ?rs = "filter_package (package_pk self) tbl"
  from a have "?rs \<noteq> []" by (auto simp: filter_package_def filter_empty_conv)
  then have "order_by_minus_order ?rs \<noteq> []"
    unfolding order_by_minus_order_def by (metis length_sort length_0_conv)
  then obtain y ys where s: "sort_key (\<lambda>r. - order r) ?rs = y # ys"
    by (auto simp: order_by_minus_order_def neq_Nil_conv)
  have "y \<in> set (sort_key (\<lambda>r. - order r) ?rs)" by (simp add: s del: set_sort)
  then have mem: "y \<in> set tbl \<and> package y = package_pk self"
    by (simp add: filter_package_def)
  have "\<forall>x\<in>set ?rs. order x \<le> order y"
    using sort_key_head_least [OF s] by force
  then have mx: "\<forall>x\<in>set tbl. package x = package_pk self \<longrightarrow> order x \<le> order y"
    by (simp add: filter_package_def)
  have "fst (latest self tbl) = Some y"
    using a s by (simp add: latest_def order_by_minus_order_def Let_def)
  with mem mx show "\<exists>r. fst (latest self tbl) = Some r
               \<and> r \<in> set tbl \<and> package r = package_pk self
               \<and> (\<forall>x\<in>set tbl. package x = package_pk self \<longrightarrow> order x \<le> order r)"
    by blast
next
  show st: "latest_release (snd (latest self tbl)) = Some (fst (latest self tbl))"
    by (cases "latest_release self") (simp_all add: latest_def Let_def)
  fix tbl2
  from st show "latest (snd (latest self tbl)) tbl2 = (fst (latest self tbl), snd (latest self tbl))"
    by (simp add: latest_def [of "snd (latest self tbl)"])
qed

theorem latest_first_read_witness:
  "(\<exists>r. fst (latest sample_package second_table) = Some r
        \<and> r \<in> set second_table \<and> package r = package_pk sample_package
        \<and> (\<forall>x\<in>set second_table. package x = package_pk sample_package \<longrightarrow> order x \<le> order r))
   \<and> fst (latest sample_package second_table) = Some second_release
   \<and> latest_release (snd (latest sample_package first_table)) = Some (Some first_release)
   \<and> latest (snd (latest sample_package first_table)) second_table
       = (Some first_release, snd (latest sample_package first_table))"
proof -
  have h: "latest_release sample_package = None
           \<and> (\<exists>x\<in>set second_table. package x = package_pk sample_package)"
    by (simp add: sample_defs)
  have e: "fst (latest sample_package first_table) = Some first_release"
    by (simp add: sample_defs latest_def filter_package_def order_by_minus_order_def Let_def)
  have e2: "fst (latest sample_package second_table) = Some second_release"
    by (simp add: sample_defs latest_def filter_package_def order_by_minus_order_def Let_def)
  note t1 = latest_first_read [of sample_package second_table]
  note t2 = latest_first_read [of sample_package first_table]
  have a: "\<exists>r. fst (latest sample_package second_table) = Some r
        \<and> r \<in> set second_table \<and> package r = package_pk sample_package
        \<and> (\<forall>x\<in>set second_table. package x = package_pk sample_package \<longrightarrow> order x \<le> order r)"
    by (rule t1 [THEN conjunct1, THEN mp, OF h])
  have b: "latest_release (snd (latest sample_package first_table)) = Some (Some first_release)"
    using t2 [THEN conjunct2, THEN conjunct1] by (simp only: e)
  have c: "latest (snd (latest sample_package first_table)) second_table
       = (Some first_release, snd (latest sample_package first_table))"
    using t2 [THEN conjunct2, THEN conjunct2, rule_format, of second_table] by (simp only: e)
  show ?thesis by (intro conjI a e2 b c)
qed

subsection \<open>C10: a package without releases\<close>

text \<open>
  Claim C10 says that \<open>latest\<close> and \<open>requirement_line\<close> yield \<open>None\<close> for a
  package without releases. Both read the attribute \<open>_latest_release\<close> once it is
  set: on an object that has read \<open>latest\<close> while the package had a release, they
  yield that release and a requirement line after the table has lost the release.
\<close>

theorem no_releases_stale_counterexample:
  "filter_package (package_pk sample_package) [] = []
   \<and> fst (latest (snd (latest sample_package first_table)) []) = Some first_release
   \<and> requirement_line sample_verlib (snd (latest sample_package first_table)) []
       = Inr (Some ''crate>=1.0,<1.1'', snd (latest sample_package first_table))"
  by (simp add: sample_defs latest_def requirement_line_def filter_package_def Let_def
        order_by_minus_order_def getitem_def py_int_def strip_def is_space_def digit_value_def
        str_int_def digit_char_def)

text \<open>
  Claim C10, amended. For a package without releases, \<open>latest\<close> yields \<open>None\<close> and
  \<open>requirement_line\<close> yields \<open>None\<close> on a package object that has no attribute
  \<open>_latest_release\<close> yet (the first read).
\<close>

theorem no_releases_first_read:
  assumes "latest_release self = None" and "filter_package (package_pk self) tbl = []"
  shows "fst (latest self tbl) = None
       \<and> requirement_line V self tbl = Inr (None, self\<lparr>latest_release := Some None\<rparr>)"
  using assms by (simp add: latest_def requirement_line_def order_by_minus_order_def)

theorem no_releases_first_read_witness:
  "latest_release sample_package = None
   \<and> filter_package (package_pk sample_package) [single_instance] = []
   \<and> fst (latest sample_package [single_instance]) = None
   \<and> requirement_line sample_verlib sample_package [single_instance]
       = Inr (None, sample_package\<lparr>latest_release := Some None\<rparr>)"
proof -
  have h1: "latest_release sample_package = None"
    by (simp add: sample_defs)
  have h2: "filter_package (package_pk sample_package) [single_instance] = []"
    by (simp add: sample_defs filter_package_def)
  from h1 h2 no_releases_first_read [OF h1 h2, of sample_verlib]
  show ?thesis by (intro conjI) simp_all
qed

end
